theory Spec2Isabelle
  imports Complex_Main
begin

section \<open>Errors\<close>

text \<open>
  The exceptions the Python sources can raise.  \<open>InvalidDimensions\<close> is the
  \<open>ValueError\<close> of \<open>generate_maze\<close>; \<open>EmptyQueue\<close> is the \<open>IndexError\<close> raised by
  \<open>PriorityQueue.pop\<close>; \<open>IndexError\<close> and \<open>KeyError\<close> are list and dict lookups
  that fail; \<open>UnknownAction\<close> is the \<open>ValueError\<close> of \<open>MazeEnv._move\<close>;
  \<open>BadHeuristic\<close> is the \<open>ValueError\<close> of \<open>_h\<close>.
\<close>

datatype error = InvalidDimensions | EmptyQueue | IndexError | KeyError
  | UnknownAction | BadHeuristic

section \<open>utils/priority\_queue.py\<close>

text \<open>
  Priorities are Python floats; they are modelled as real numbers (no NaN, no
  rounding).  The heap of \<open>heapq\<close> is modelled by its contract: a collection from
  which \<open>heappop\<close> removes and returns the least entry, entries being compared
  on \<open>(priority, tie)\<close> as the dataclass ordering does (\<open>item\<close> has
  \<open>compare=False\<close>).
\<close>

record 't PQItem =
  priority :: real
  tie :: int
  item :: 't

record 't PriorityQueue =
  q_heap :: "'t PQItem list"
  q_tie :: int
  q_best :: "'t \<rightharpoonup> real"

definition item_lt :: "'t PQItem \<Rightarrow> 't PQItem \<Rightarrow> bool" where
  "item_lt a b \<longleftrightarrow> priority a < priority b \<or> (priority a = priority b \<and> tie a < tie b)"

fun heap_min :: "'t PQItem \<Rightarrow> 't PQItem list \<Rightarrow> 't PQItem" where
  "heap_min m [] = m"
| "heap_min m (e # es) = heap_min (if item_lt e m then e else m) es"

definition heappush :: "'t PQItem list \<Rightarrow> 't PQItem \<Rightarrow> 't PQItem list" where
  "heappush h e = h @ [e]"

fun heappop :: "'t PQItem list \<Rightarrow> 't PQItem \<times> 't PQItem list" where
  "heappop [] = (undefined, [])"
| "heappop (e # es) = (heap_min e es, remove1 (heap_min e es) (e # es))"

definition pq_init :: "'t PriorityQueue" where
  "pq_init = \<lparr>q_heap = [], q_tie = 0, q_best = Map.empty\<rparr>"

definition push :: "'t PriorityQueue \<Rightarrow> 't \<Rightarrow> real \<Rightarrow> 't PriorityQueue" where
  "push q x p =
     (if (case q_best q x of None \<Rightarrow> True | Some b \<Rightarrow> p < b)
      then q\<lparr>q_best := (q_best q)(x \<mapsto> p),
             q_heap := heappush (q_heap q) \<lparr>priority = p, tie = q_tie q, item = x\<rparr>,
             q_tie := q_tie q + 1\<rparr>
      else q)"

function pop_loop :: "('t \<rightharpoonup> real) \<Rightarrow> 't PQItem list \<Rightarrow> error + (('t \<times> real) \<times> 't PQItem list)" where
  "pop_loop b [] = Inl EmptyQueue"
| "pop_loop b (e # es) =
     (if b (item (heap_min e es)) = Some (priority (heap_min e es))
      then Inr ((item (heap_min e es), priority (heap_min e es)), remove1 (heap_min e es) (e # es))
      else pop_loop b (remove1 (heap_min e es) (e # es)))"
  by pat_completeness auto
termination
proof (relation "measure (\<lambda>(b, h). length h)")
  show "wf (measure (\<lambda>(b, h). length h))" by simp
next
  fix b :: "'t \<rightharpoonup> real" and e :: "'t PQItem" and es
  have "heap_min m es \<in> set (m # es)" for m :: "'t PQItem"
    by (induction es arbitrary: m) auto
  then have "heap_min e es \<in> set (e # es)" .
  then have "length (remove1 (heap_min e es) (e # es)) < length (e # es)"
    by (simp only: length_remove1 if_True) simp
  then show "((b, remove1 (heap_min e es) (e # es)), (b, e # es)) \<in> measure (\<lambda>(b, h). length h)"
    by simp
qed

definition pop :: "'t PriorityQueue \<Rightarrow> error + (('t \<times> real) \<times> 't PriorityQueue)" where
  "pop q = (case pop_loop (q_best q) (q_heap q) of
              Inl e \<Rightarrow> Inl e
            | Inr (r, h) \<Rightarrow> Inr (r, q\<lparr>q_heap := h\<rparr>))"

definition empty_pq :: "'t PriorityQueue \<Rightarrow> bool" where
  "empty_pq q \<longleftrightarrow> card (dom (q_best q)) = 0
      \<or> list_all (\<lambda>it. q_best q (item it) \<noteq> Some (priority it)) (q_heap q)"

definition len_pq :: "'t PriorityQueue \<Rightarrow> int" where
  "len_pq q = int (card (dom (q_best q)))"

definition peek_priority :: "'t PriorityQueue \<Rightarrow> 't \<Rightarrow> real option" where
  "peek_priority q x = q_best q x"

declare pop_loop.simps [simp del]

text \<open>
  An entry of the heap is live when its priority is the best-known priority of its
  item; the states of a queue are those reached from the empty queue by \<open>push\<close> and
  by \<open>pop\<close> calls that return.
\<close>

definition live :: "('t \<rightharpoonup> real) \<Rightarrow> 't PQItem \<Rightarrow> bool" where
  "live b e \<longleftrightarrow> b (item e) = Some (priority e)"

inductive pq_reach :: "'t PriorityQueue \<Rightarrow> bool" where
  reach_init: "pq_reach pq_init"
| reach_push: "pq_reach q \<Longrightarrow> pq_reach (push q x p)"
| reach_pop: "pq_reach q \<Longrightarrow> pop q = Inr (r, q') \<Longrightarrow> pq_reach q'"

definition pq_inv :: "'t PriorityQueue \<Rightarrow> bool" where
  "pq_inv q \<longleftrightarrow>
     (\<forall>e\<in>set (q_heap q). \<exists>b. q_best q (item e) = Some b \<and> b \<le> priority e)
   \<and> (\<forall>e\<in>set (q_heap q). tie e < q_tie q)
   \<and> distinct (map tie (q_heap q))
   \<and> (\<forall>e\<in>set (q_heap q). \<forall>e'\<in>set (q_heap q).
         item e = item e' \<and> priority e = priority e' \<longrightarrow> e = e')"

section \<open>maze/generator.py: the maze record\<close>

unbundle bit_operations_syntax

type_synonym Coord = "int \<times> int"

text \<open>
  \<open>walls[r][c]\<close> is a 4-bit mask, N=1, E=2, S=4, W=8; a set bit is a wall.
  The constants are named \<open>wN\<close>, \<open>wE\<close>, \<open>wS\<close>, \<open>wW\<close> here.
\<close>

record Maze =
  rows :: int
  cols :: int
  walls :: "int list list"
  start :: Coord
  goal :: Coord

definition wN :: int where "wN = 1"
definition wE :: int where "wE = 2"
definition wS :: int where "wS = 4"
definition wW :: int where "wW = 8"

text \<open>
  Indexing a Python list: positions \<open>0 .. len-1\<close> are read directly, positions
  \<open>-len .. -1\<close> are read from the end, and every other position raises
  \<open>IndexError\<close>.
\<close>

definition py_get :: "'a list \<Rightarrow> int \<Rightarrow> error + 'a" where
  "py_get xs i =
     (if 0 \<le> i \<and> i < int (length xs) then Inr (xs ! nat i)
      else if i < 0 \<and> - int (length xs) \<le> i then Inr (xs ! nat (int (length xs) + i))
      else Inl IndexError)"

definition ebind :: "error + 'a \<Rightarrow> ('a \<Rightarrow> error + 'b) \<Rightarrow> error + 'b" where
  "ebind x f = (case x of Inl e \<Rightarrow> Inl e | Inr v \<Rightarrow> f v)"

definition has_wall :: "Maze \<Rightarrow> int \<Rightarrow> int \<Rightarrow> int \<Rightarrow> error + bool" where
  "has_wall m r c direction_bit =
     ebind (py_get (walls m) r) (\<lambda>row.
     ebind (py_get row c) (\<lambda>w. Inr ((w AND direction_bit) \<noteq> 0)))"

section \<open>maze/env.py\<close>

text \<open>Rewards, discount and slip probability are Python floats, modelled as reals.\<close>

record MazeEnv =
  maze :: Maze
  step_reward :: real
  goal_reward :: real
  wall_reward :: real
  gamma :: real
  slip_prob :: real

definition ACTIONS :: "string list" where
  "ACTIONS = [''U'', ''R'', ''D'', ''L'']"


definition is_goal :: "MazeEnv \<Rightarrow> Coord \<Rightarrow> bool" where
  "is_goal env s \<longleftrightarrow> s = goal (maze env)"

text \<open>
  \<open>neighbors\<close>: each of the four tests calls \<open>has_wall\<close> first (which may raise)
  and then checks the bound; the order of the result is north, east, south, west.
\<close>

definition neighbors :: "MazeEnv \<Rightarrow> Coord \<Rightarrow> error + Coord list" where
  "neighbors env s = (case s of (r, c) \<Rightarrow>
     ebind (has_wall (maze env) r c wN) (\<lambda>hn.
     ebind (has_wall (maze env) r c wE) (\<lambda>he.
     ebind (has_wall (maze env) r c wS) (\<lambda>hs.
     ebind (has_wall (maze env) r c wW) (\<lambda>hw.
       Inr ((if \<not> hn \<and> r - 1 \<ge> 0 then [(r - 1, c)] else [])
          @ (if \<not> he \<and> c + 1 < cols (maze env) then [(r, c + 1)] else [])
          @ (if \<not> hs \<and> r + 1 < rows (maze env) then [(r + 1, c)] else [])
          @ (if \<not> hw \<and> c - 1 \<ge> 0 then [(r, c - 1)] else [])))))))"

definition cost :: "MazeEnv \<Rightarrow> Coord \<Rightarrow> Coord \<Rightarrow> real" where
  "cost env s s2 = 1"

definition states :: "MazeEnv \<Rightarrow> Coord list" where
  "states env = concat (map (\<lambda>r. map (\<lambda>c. (r, c)) [0..cols (maze env) - 1]) [0..rows (maze env) - 1])"

definition move :: "MazeEnv \<Rightarrow> Coord \<Rightarrow> string \<Rightarrow> error + Coord" where
  "move env s a = (case s of (r, c) \<Rightarrow>
     if a = ''U'' then
       ebind (has_wall (maze env) r c wN) (\<lambda>h. if h \<or> r - 1 < 0 then Inr s else Inr (r - 1, c))
     else if a = ''R'' then
       ebind (has_wall (maze env) r c wE) (\<lambda>h. if h \<or> c + 1 \<ge> cols (maze env) then Inr s else Inr (r, c + 1))
     else if a = ''D'' then
       ebind (has_wall (maze env) r c wS) (\<lambda>h. if h \<or> r + 1 \<ge> rows (maze env) then Inr s else Inr (r + 1, c))
     else if a = ''L'' then
       ebind (has_wall (maze env) r c wW) (\<lambda>h. if h \<or> c - 1 < 0 then Inr s else Inr (r, c - 1))
     else Inl UnknownAction)"

definition reward :: "MazeEnv \<Rightarrow> Coord \<Rightarrow> string \<Rightarrow> Coord \<Rightarrow> real" where
  "reward env s a s2 =
     (if is_goal env s then 0
      else if is_goal env s2 then goal_reward env
      else if s2 = s \<and> a \<in> set ACTIONS then wall_reward env
      else step_reward env)"

text \<open>
  The dictionary \<open>probs\<close> of \<open>transitions\<close> keeps insertion order, and
  \<open>list(probs.items())\<close> returns it: an association list, where adding to a key
  that is present keeps its place.
\<close>

fun dict_add :: "(Coord \<times> real) list \<Rightarrow> Coord \<Rightarrow> real \<Rightarrow> (Coord \<times> real) list" where
  "dict_add [] k v = [(k, 0 + v)]"
| "dict_add ((k', w) # kvs) k v =
     (if k' = k then (k', w + v) # kvs else (k', w) # dict_add kvs k v)"

definition side :: "string \<Rightarrow> error + (string \<times> string)" where
  "side a = (if a = ''U'' then Inr (''L'', ''R'')
             else if a = ''R'' then Inr (''U'', ''D'')
             else if a = ''D'' then Inr (''L'', ''R'')
             else if a = ''L'' then Inr (''U'', ''D'')
             else Inl KeyError)"

definition transitions :: "MazeEnv \<Rightarrow> Coord \<Rightarrow> string \<Rightarrow> error + (Coord \<times> real) list" where
  "transitions env s a =
     (if is_goal env s then Inr [(s, 1)]
      else if slip_prob env \<le> 0 then ebind (move env s a) (\<lambda>s2. Inr [(s2, 1)])
      else
        ebind (side a) (\<lambda>sd.
        let p_main = 1 - slip_prob env; p_side = slip_prob env / 2 in
        ebind (move env s a) (\<lambda>ns_main.
        ebind (move env s (fst sd)) (\<lambda>ns_s1.
        ebind (move env s (snd sd)) (\<lambda>ns_s2.
          Inr (dict_add (dict_add (dict_add [] ns_main p_main) ns_s1 p_side) ns_s2 p_side))))))"

text \<open>\<open>expected_return\<close>: \<open>V[s2]\<close> raises \<open>KeyError\<close> when \<open>s2\<close> is not a key.\<close>

fun expected_sum :: "MazeEnv \<Rightarrow> (Coord \<rightharpoonup> real) \<Rightarrow> Coord \<Rightarrow> string
    \<Rightarrow> (Coord \<times> real) list \<Rightarrow> real \<Rightarrow> error + real" where
  "expected_sum env V s a [] tot = Inr tot"
| "expected_sum env V s a ((s2, p) # rest) tot =
     (case V s2 of None \<Rightarrow> Inl KeyError
      | Some v \<Rightarrow> expected_sum env V s a rest (tot + p * (reward env s a s2 + gamma env * v)))"

definition expected_return :: "MazeEnv \<Rightarrow> (Coord \<rightharpoonup> real) \<Rightarrow> Coord \<Rightarrow> string \<Rightarrow> error + real" where
  "expected_return env V s a = ebind (transitions env s a) (\<lambda>ts. expected_sum env V s a ts 0)"


section \<open>A concrete maze\<close>



section \<open>Priority queue: lemmas\<close>

lemma heap_min_mem: "heap_min m es \<in> set (m # es)"
  by (induction es arbitrary: m) auto




lemma item_lt_trans: "item_lt a b \<Longrightarrow> item_lt b c \<Longrightarrow> item_lt a c"
  unfolding item_lt_def by auto

lemma heap_min_le_start: "\<not> item_lt m (heap_min m es)"
proof (induction es arbitrary: m)
  case Nil
  show ?case by (simp add: item_lt_def)
next
  case (Cons a es)
  show ?case
  proof (cases "item_lt a m")
    case True
    have "\<not> item_lt a (heap_min a es)" by (rule Cons.IH)
    then have "\<not> item_lt m (heap_min a es)" using True unfolding item_lt_def by auto
    then show ?thesis using True by simp
  next
    case False
    then show ?thesis using Cons.IH[of m] by simp
  qed
qed

lemma heap_min_least: "e' \<in> set (m # es) \<Longrightarrow> \<not> item_lt e' (heap_min m es)"
proof (induction es arbitrary: m e')
  case Nil
  then show ?case by (simp add: item_lt_def)
next
  case (Cons a es)
  let ?m = "if item_lt a m then a else m"
  have hm: "heap_min m (a # es) = heap_min ?m es" by simp
  have start: "\<not> item_lt ?m (heap_min ?m es)" by (rule heap_min_le_start)
  from Cons.prems have "e' = m \<or> e' = a \<or> e' \<in> set es" by auto
  then show ?case
  proof (elim disjE)
    assume "e' \<in> set es"
    then have "e' \<in> set (?m # es)" by simp
    from Cons.IH[OF this] show ?thesis unfolding hm .
  next
    assume e: "e' = m"
    show ?thesis unfolding hm e using start unfolding item_lt_def by (auto split: if_splits)
  next
    assume e: "e' = a"
    show ?thesis unfolding hm e using start unfolding item_lt_def by (auto split: if_splits)
  qed
qed

lemma remove1_props:
  "set (remove1 x h) \<subseteq> set h"
  "distinct h \<Longrightarrow> x \<notin> set (remove1 x h)"
  "y \<in> set h \<Longrightarrow> y \<noteq> x \<Longrightarrow> y \<in> set (remove1 x h)"
  "distinct (map f h) \<Longrightarrow> distinct (map f (remove1 x h))"
proof -
  show "set (remove1 x h) \<subseteq> set h" by (rule set_remove1_subset)
  show "distinct h \<Longrightarrow> x \<notin> set (remove1 x h)" by simp
  show "y \<in> set h \<Longrightarrow> y \<noteq> x \<Longrightarrow> y \<in> set (remove1 x h)" by simp
  show "distinct (map f h) \<Longrightarrow> distinct (map f (remove1 x h))"
    by (induction h) (auto simp: image_iff dest: notin_set_remove1)
qed

lemma pop_loop_Inl: "pop_loop b h = Inl err \<Longrightarrow> err = EmptyQueue \<and> (\<forall>e\<in>set h. \<not> live b e)"
proof (induction b h rule: pop_loop.induct)
  case (1 b)
  then show ?case by (simp add: pop_loop.simps(1))
next
  case (2 b e es)
  let ?m = "heap_min e es"
  let ?h = "remove1 ?m (e # es)"
  have stale: "b (item ?m) \<noteq> Some (priority ?m)"
  proof
    assume "b (item ?m) = Some (priority ?m)"
    then have "pop_loop b (e # es) = Inr ((item ?m, priority ?m), ?h)" by (simp add: pop_loop.simps(2) del: remove1.simps)
    with "2.prems" show False by simp
  qed
  then have "pop_loop b (e # es) = pop_loop b ?h" by (simp add: pop_loop.simps(2) del: remove1.simps)
  with "2.prems" have rec: "pop_loop b ?h = Inl err" by simp
  from "2.IH"[OF stale rec] have ih1: "err = EmptyQueue" and ih2: "\<forall>x\<in>set ?h. \<not> live b x"
    by blast+
  have "\<not> live b x" if x: "x \<in> set (e # es)" for x
  proof (cases "x = ?m")
    case True then show ?thesis using stale by (simp add: live_def)
  next
    case False
    then have "x \<in> set ?h" using x by (rule remove1_props(3)[rotated])
    then show ?thesis using ih2 by blast
  qed
  then show ?case using ih1 by blast
qed

lemma pop_loop_Inr:
  "pop_loop b h = Inr ((x, p), h') \<Longrightarrow>
     \<exists>top\<in>set h. item top = x \<and> priority top = p \<and> live b top
        \<and> (\<forall>e\<in>set h. live b e \<longrightarrow> \<not> item_lt e top)
        \<and> set h' \<subseteq> set h
        \<and> (distinct h \<longrightarrow> top \<notin> set h')
        \<and> (\<forall>e\<in>set h. live b e \<and> e \<noteq> top \<longrightarrow> e \<in> set h')"
proof (induction b h rule: pop_loop.induct)
  case (1 b)
  then show ?case by (simp add: pop_loop.simps(1))
next
  case (2 b e es)
  let ?m = "heap_min e es"
  let ?h = "remove1 ?m (e # es)"
  have mem: "?m \<in> set (e # es)" by (rule heap_min_mem)
  have least: "\<And>x. x \<in> set (e # es) \<Longrightarrow> \<not> item_lt x ?m" by (rule heap_min_least)
  have sub: "set ?h \<subseteq> set (e # es)" by (rule remove1_props(1))
  show ?case
  proof (cases "b (item ?m) = Some (priority ?m)")
    case True
    then have "pop_loop b (e # es) = Inr ((item ?m, priority ?m), ?h)" by (simp add: pop_loop.simps(2) del: remove1.simps)
    with "2.prems" have eq: "x = item ?m" "p = priority ?m" "h' = ?h" by simp_all
    have l: "live b ?m" using True by (simp add: live_def)
    have a: "\<forall>y\<in>set (e # es). live b y \<longrightarrow> \<not> item_lt y ?m" using least by blast
    have c: "distinct (e # es) \<longrightarrow> ?m \<notin> set h'"
      unfolding eq(3) by (rule impI) (rule remove1_props(2))
    have e': "\<forall>y\<in>set (e # es). live b y \<and> y \<noteq> ?m \<longrightarrow> y \<in> set h'"
      unfolding eq(3) by (intro ballI impI, elim conjE) (rule remove1_props(3))
    have b': "set h' \<subseteq> set (e # es)" unfolding eq(3) by (rule sub)
    show ?thesis
      by (rule bexI[OF _ mem]) (intro conjI; (rule eq[symmetric] l a b' c e'))
  next
    case False
    then have "pop_loop b (e # es) = pop_loop b ?h" by (simp add: pop_loop.simps(2) del: remove1.simps)
    with "2.prems" have rec: "pop_loop b ?h = Inr ((x, p), h')" by simp
    from "2.IH"[OF False rec] obtain top where top: "top \<in> set ?h" "item top = x" "priority top = p"
      "live b top" "\<forall>e\<in>set ?h. live b e \<longrightarrow> \<not> item_lt e top" "set h' \<subseteq> set ?h"
      "distinct ?h \<longrightarrow> top \<notin> set h'" "\<forall>e\<in>set ?h. live b e \<and> e \<noteq> top \<longrightarrow> e \<in> set h'"
      by blast
    have keep: "y \<in> set ?h" if "y \<in> set (e # es)" "live b y" for y
    proof -
      have "y \<noteq> ?m" using that(2) False by (auto simp: live_def)
      with that(1) show ?thesis by (rule remove1_props(3))
    qed
    have d: "distinct (e # es) \<longrightarrow> distinct ?h" by (rule impI) (rule distinct_remove1)
    have topin: "top \<in> set (e # es)" using top(1) sub by blast
    have a: "\<forall>y\<in>set (e # es). live b y \<longrightarrow> \<not> item_lt y top" using top(5) keep by blast
    have b': "set h' \<subseteq> set (e # es)" using top(6) sub by blast
    have c: "distinct (e # es) \<longrightarrow> top \<notin> set h'" using top(7) d by blast
    have e': "\<forall>y\<in>set (e # es). live b y \<and> y \<noteq> top \<longrightarrow> y \<in> set h'" using top(8) keep by blast
    show ?thesis
      by (rule bexI[OF _ topin]) (intro conjI; (rule top(2,3,4) a b' c e'))
  qed
qed

lemma pop_loop_distinct:
  "pop_loop b h = Inr (r, h') \<Longrightarrow> distinct (map tie h) \<Longrightarrow> distinct (map tie h')"
proof (induction b h rule: pop_loop.induct)
  case (1 b)
  then show ?case by (simp add: pop_loop.simps(1))
next
  case (2 b e es)
  let ?m = "heap_min e es"
  let ?h = "remove1 ?m (e # es)"
  have d: "distinct (map tie ?h)" using "2.prems"(2) by (rule remove1_props(4))
  show ?case
  proof (cases "b (item ?m) = Some (priority ?m)")
    case True
    then have "pop_loop b (e # es) = Inr ((item ?m, priority ?m), ?h)" by (simp add: pop_loop.simps(2) del: remove1.simps)
    with "2.prems" have "h' = ?h" by simp
    then show ?thesis using d by simp
  next
    case False
    then have "pop_loop b (e # es) = pop_loop b ?h" by (simp add: pop_loop.simps(2) del: remove1.simps)
    with "2.prems" have rec: "pop_loop b ?h = Inr (r, h')" by simp
    from "2.IH"[OF False rec d] show ?thesis .
  qed
qed



lemma pq_inv_init: "pq_inv pq_init"
  by (simp add: pq_inv_def pq_init_def)

lemma pq_inv_push: assumes "pq_inv q" shows "pq_inv (push q x p)"
proof (cases "case q_best q x of None \<Rightarrow> True | Some b \<Rightarrow> p < b")
  case False
  then have "push q x p = q" by (simp add: push_def)
  then show ?thesis using assms by simp
next
  case True
  let ?n = "\<lparr>priority = p, tie = q_tie q, item = x\<rparr>"
  let ?q = "push q x p"
  have h: "q_heap ?q = q_heap q @ [?n]" and t: "q_tie ?q = q_tie q + 1"
    and b: "q_best ?q = (q_best q)(x \<mapsto> p)"
    using True by (simp_all add: push_def heappush_def)
  from assms have i1: "\<And>e. e \<in> set (q_heap q) \<Longrightarrow> \<exists>b. q_best q (item e) = Some b \<and> b \<le> priority e"
    and i2: "\<And>e. e \<in> set (q_heap q) \<Longrightarrow> tie e < q_tie q"
    and i3: "distinct (map tie (q_heap q))"
    and i4: "\<And>e e'. e \<in> set (q_heap q) \<Longrightarrow> e' \<in> set (q_heap q) \<Longrightarrow> item e = item e' \<Longrightarrow> priority e = priority e' \<Longrightarrow> e = e'"
    unfolding pq_inv_def by blast+
  have old: "p < priority e" if mem: "e \<in> set (q_heap q)" and itx: "item e = x" for e
  proof -
    from i1[OF mem] obtain b0 where "q_best q x = Some b0" "b0 \<le> priority e" using itx by auto
    with True show ?thesis by simp
  qed
  have c1: "\<exists>b. q_best ?q (item e) = Some b \<and> b \<le> priority e" if "e \<in> set (q_heap ?q)" for e
  proof (cases "e = ?n")
    case True then show ?thesis by (simp add: b)
  next
    case False
    with that have e: "e \<in> set (q_heap q)" by (simp add: h)
    show ?thesis
    proof (cases "item e = x")
      case True
      with old[OF e] show ?thesis by (simp add: b)
    next
      case False
      with i1[OF e] show ?thesis by (simp add: b)
    qed
  qed
  have c2: "tie e < q_tie ?q" if "e \<in> set (q_heap ?q)" for e
    using that i2[of e] by (auto simp: h t)
  have "q_tie q \<notin> tie ` set (q_heap q)" using i2 by fastforce
  then have c3: "distinct (map tie (q_heap ?q))"
    using i3 by (simp add: h)
  have c4: "e = e'" if m1: "e \<in> set (q_heap ?q)" and m2: "e' \<in> set (q_heap ?q)"
    and ei: "item e = item e'" and ep: "priority e = priority e'" for e e'
  proof -
    have d1: "e = ?n \<or> e \<in> set (q_heap q)" using m1 by (simp add: h)
    have d2: "e' = ?n \<or> e' \<in> set (q_heap q)" using m2 by (simp add: h)
    show ?thesis
    proof (cases "e = ?n")
      case en: True
      show ?thesis
      proof (cases "e' = ?n")
        case True then show ?thesis using en by simp
      next
        case False
        with d2 have in2: "e' \<in> set (q_heap q)" by simp
        have "item e' = x" "priority e' = p" using ei ep en by simp_all
        with old[OF in2] show ?thesis by simp
      qed
    next
      case False
      with d1 have in1: "e \<in> set (q_heap q)" by simp
      show ?thesis
      proof (cases "e' = ?n")
        case True
        then have "item e = x" "priority e = p" using ei ep by simp_all
        with old[OF in1] show ?thesis by simp
      next
        case False
        with d2 have in2: "e' \<in> set (q_heap q)" by simp
        show ?thesis by (rule i4[OF in1 in2 ei ep])
      qed
    qed
  qed
  show ?thesis unfolding pq_inv_def using c1 c2 c3 c4 by blast
qed

lemma pop_Inr:
  assumes "pop q = Inr ((x, p), q')"
  shows "q_best q' = q_best q" "q_tie q' = q_tie q"
    "pop_loop (q_best q) (q_heap q) = Inr ((x, p), q_heap q')"
  using assms by (auto simp: pop_def split: sum.splits)

lemma pq_inv_pop: assumes "pq_inv q" "pop q = Inr (r, q')" shows "pq_inv q'"
proof -
  obtain x p where r: "r = (x, p)" by (cases r)
  note pp = pop_Inr[OF assms(2)[unfolded r]]
  from pop_loop_Inr[OF pp(3)] have sub: "set (q_heap q') \<subseteq> set (q_heap q)" by blast
  have d: "distinct (map tie (q_heap q'))"
    using pop_loop_distinct[OF pp(3)] assms(1) unfolding pq_inv_def by blast
  show ?thesis using assms(1) sub d unfolding pq_inv_def pp(1,2) by blast
qed

lemma pq_reach_inv: "pq_reach q \<Longrightarrow> pq_inv q"
  by (induction rule: pq_reach.induct) (auto intro: pq_inv_init pq_inv_push pq_inv_pop)



lemma pop_empty_iff:
  "(\<forall>e\<in>set (q_heap q). \<not> live (q_best q) e) \<Longrightarrow> pop q = Inl EmptyQueue"
proof -
  assume nl: "\<forall>e\<in>set (q_heap q). \<not> live (q_best q) e"
  show ?thesis
  proof (cases "pop_loop (q_best q) (q_heap q)")
    case (Inl err)
    with pop_loop_Inl[OF Inl] show ?thesis by (simp add: pop_def)
  next
    case (Inr r)
    obtain x p h' where "r = ((x, p), h')" by (cases r) auto
    with Inr pop_loop_Inr[of "q_best q" "q_heap q" x p h'] nl show ?thesis by blast
  qed
qed


lemma pop_top:
  assumes inv: "pq_inv q" and pp: "pop q = Inr ((x, p), q')"
  shows "\<exists>top\<in>set (q_heap q). item top = x \<and> priority top = p \<and> live (q_best q) top
        \<and> (\<forall>e\<in>set (q_heap q). live (q_best q) e \<and> e \<noteq> top \<longrightarrow> item_lt top e \<and> e \<in> set (q_heap q'))
        \<and> top \<notin> set (q_heap q') \<and> set (q_heap q') \<subseteq> set (q_heap q)"
proof -
  note e = pop_Inr[OF pp]
  from inv have dt: "distinct (map tie (q_heap q))" unfolding pq_inv_def by blast
  then have dh: "distinct (q_heap q)" by (simp add: distinct_map)
  from pop_loop_Inr[OF e(3)] obtain top where top: "top \<in> set (q_heap q)" "item top = x"
    "priority top = p" "live (q_best q) top"
    "\<forall>e\<in>set (q_heap q). live (q_best q) e \<longrightarrow> \<not> item_lt e top"
    "set (q_heap q') \<subseteq> set (q_heap q)" "distinct (q_heap q) \<longrightarrow> top \<notin> set (q_heap q')"
    "\<forall>e\<in>set (q_heap q). live (q_best q) e \<and> e \<noteq> top \<longrightarrow> e \<in> set (q_heap q')"
    by blast
  have lt: "item_lt top y" if y: "y \<in> set (q_heap q)" and l: "live (q_best q) y" and ne: "y \<noteq> top" for y
  proof -
    have "tie y \<noteq> tie top" using dt y top(1) ne by (meson distinct_map inj_onD)
    moreover have "\<not> item_lt y top" using top(5) y l by blast
    ultimately show ?thesis unfolding item_lt_def by auto
  qed
  have a: "\<forall>e\<in>set (q_heap q). live (q_best q) e \<and> e \<noteq> top \<longrightarrow> item_lt top e \<and> e \<in> set (q_heap q')"
    using lt top(8) by blast
  have b: "top \<notin> set (q_heap q')" using top(7) dh by blast
  show ?thesis
    by (rule bexI[OF _ top(1)]) (intro conjI; (rule top(2,3,4,6) a b))
qed


section \<open>Priority queue: claims\<close>




text \<open>
  Claim C10.  \<open>pop\<close> keeps the best-known priority of the item it returns.  So after
  \<open>push(x,p)\<close> and a \<open>pop\<close> that returns \<open>(x,p)\<close>, a \<open>push(x,p')\<close> with \<open>p' \<ge> p\<close>
  changes nothing, the heap holds no live entry for \<open>x\<close>, and when no other item has
  a live entry the next \<open>pop\<close> raises \<open>EmptyQueue\<close>.
\<close>

theorem pop_retains_best:
  assumes r: "pq_reach q0" and pp: "pop (push q0 x p) = Inr ((x, p), q1)" and le: "p \<le> p'"
  shows "q_best q1 x = Some p \<and> push q1 x p' = q1
     \<and> (\<forall>e\<in>set (q_heap q1). item e = x \<longrightarrow> \<not> live (q_best q1) e)
     \<and> ((\<forall>e\<in>set (q_heap q1). item e \<noteq> x \<longrightarrow> \<not> live (q_best q1) e)
          \<longrightarrow> pop (push q1 x p') = Inl EmptyQueue)"
proof -
  let ?q = "push q0 x p"
  have inv: "pq_inv ?q" using r by (intro pq_reach_inv reach_push)
  from pop_top[OF inv pp] obtain top where top: "top \<in> set (q_heap ?q)" "item top = x"
      "priority top = p" "live (q_best ?q) top"
      "top \<notin> set (q_heap q1)" "set (q_heap q1) \<subseteq> set (q_heap ?q)"
      by blast
  have b: "q_best q1 = q_best ?q" by (rule pop_Inr(1)[OF pp])
  have bx: "q_best q1 x = Some p" using top(2,3,4) b by (simp add: live_def)
  have dropped: "push q1 x p' = q1" using bx le by (simp add: push_def)
  have uniq: "\<And>e e'. e \<in> set (q_heap ?q) \<Longrightarrow> e' \<in> set (q_heap ?q) \<Longrightarrow> item e = item e'
      \<Longrightarrow> priority e = priority e' \<Longrightarrow> e = e'"
    using inv unfolding pq_inv_def by blast
  have nolive: "\<not> live (q_best q1) e" if m: "e \<in> set (q_heap q1)" and ix: "item e = x" for e
  proof
    assume "live (q_best q1) e"
    then have "priority e = p" using bx ix by (simp add: live_def)
    moreover have "e \<in> set (q_heap ?q)" using m top(6) by blast
    ultimately have "e = top" using uniq[OF _ top(1)] ix top(2,3) by simp
    with m top(5) show False by simp
  qed
  have last: "(\<forall>e\<in>set (q_heap q1). item e \<noteq> x \<longrightarrow> \<not> live (q_best q1) e)
          \<longrightarrow> pop (push q1 x p') = Inl EmptyQueue"
  proof
    assume "\<forall>e\<in>set (q_heap q1). item e \<noteq> x \<longrightarrow> \<not> live (q_best q1) e"
    with nolive have "\<forall>e\<in>set (q_heap q1). \<not> live (q_best q1) e" by blast
    then have "pop q1 = Inl EmptyQueue" by (rule pop_empty_iff)
    then show "pop (push q1 x p') = Inl EmptyQueue" by (simp only: dropped)
  qed
  have nl: "\<forall>e\<in>set (q_heap q1). item e = x \<longrightarrow> \<not> live (q_best q1) e" using nolive by blast
  show ?thesis by (intro conjI; (rule bx dropped nl last))
qed

text \<open>
  Claim C7.  \<open>len\<close> is the size of the best-priority dictionary, and \<open>pop\<close> never
  removes a key from it: after one push and one pop the heap is empty and
  \<open>empty()\<close> holds, yet \<open>len\<close> is 1.
\<close>

theorem len_counts_popped_item:
  "\<exists>q1. pop (push pq_init ''x'' 1) = Inr ((''x'', 1), q1) \<and> q_heap q1 = []
       \<and> empty_pq q1 \<and> len_pq q1 = 1"
  by (simp add: push_def pq_init_def heappush_def pop_def pop_loop.simps len_pq_def empty_pq_def)


text \<open>Claim C10 at the empty queue, with \<open>p = p' = 1\<close>.\<close>

theorem pop_retains_best_witness:
  "pq_reach (pq_init :: nat PriorityQueue) \<and> (1::real) \<le> 1
   \<and> pop (push (\<lparr>q_heap = [], q_tie = 1, q_best = [(0::nat) \<mapsto> 1]\<rparr>) 0 1) = Inl EmptyQueue"
proof -
  let ?q1 = "\<lparr>q_heap = [], q_tie = 1, q_best = [(0::nat) \<mapsto> 1]\<rparr>"
  have r: "pq_reach (pq_init :: nat PriorityQueue)" by (rule reach_init)
  have pp: "pop (push pq_init (0::nat) 1) = Inr ((0, 1), ?q1)"
    by (simp add: push_def pq_init_def heappush_def pop_def pop_loop.simps)
  have le: "(1::real) \<le> 1" by simp
  from pop_retains_best[OF r pp le]
  have "(\<forall>e\<in>set (q_heap ?q1). item e \<noteq> 0 \<longrightarrow> \<not> live (q_best ?q1) e)
          \<longrightarrow> pop (push ?q1 0 1) = Inl EmptyQueue" by (elim conjE)
  then have c: "pop (push ?q1 0 1) = Inl EmptyQueue" by simp
  show ?thesis by (intro conjI; (rule r le c))
qed


section \<open>Environment: lemmas\<close>








section \<open>Environment: claims\<close>




end
